theory Spec2Isabelle
  imports Main
begin

section \<open>The logger of http\_server: Logger.h and Logger.cpp\<close>

text \<open>
  A shallow embedding of namespace \<^verbatim>\<open>log\<close>: the severity enumeration, the event
  (\<^verbatim>\<open>Line\<close>), the \<^verbatim>\<open>Worker\<close> with its formatting, and the \<^verbatim>\<open>Manager\<close> with its
  worker vector and its mutex. The standard library and the operating system are the
  environment: the console stream, the file system and the clock are fields of the state,
  and each library call the code makes is a function on them.
\<close>

subsection \<open>Characters and constants\<close>

abbreviation NL :: char where "NL \<equiv> CHR 0x0A"
abbreviation ESC :: char where "ESC \<equiv> CHR 0x1B"
abbreviation DQUOTE :: char where "DQUOTE \<equiv> CHR 0x22"
abbreviation BACKSLASH :: char where "BACKSLASH \<equiv> CHR 0x5C"
abbreviation SLASH :: char where "SLASH \<equiv> CHR 0x2F"

definition LEVEL_FMT_WIDTH :: nat where "LEVEL_FMT_WIDTH = 8"
definition TIME_FMT_WIDTH :: nat where "TIME_FMT_WIDTH = 25"
definition FULL_LOG_WIDTH :: nat where "FULL_LOG_WIDTH = 100"

subsection \<open>Severity\<close>

datatype Level = CRITICAL | ERROR | WARNING | INFO | DEBUG | TRACE

text \<open>The enumerators of \<^verbatim>\<open>enum Level : std::uint8_t\<close> in declaration order.\<close>

fun ordinal :: "Level \<Rightarrow> nat" where
  "ordinal CRITICAL = 0"
| "ordinal ERROR = 1"
| "ordinal WARNING = 2"
| "ordinal INFO = 3"
| "ordinal DEBUG = 4"
| "ordinal TRACE = 5"

fun colorStr :: "Level \<Rightarrow> string" where
  "colorStr CRITICAL = ESC # ''[31;1m''"
| "colorStr ERROR = ESC # ''[31m''"
| "colorStr WARNING = ESC # ''[33m''"
| "colorStr INFO = ''''"
| "colorStr DEBUG = ESC # ''[2m''"
| "colorStr TRACE = ESC # ''[2;3m''"

fun levelStr :: "Level \<Rightarrow> string" where
  "levelStr CRITICAL = ''CRITICAL''"
| "levelStr ERROR = ''ERROR''"
| "levelStr WARNING = ''WARNING''"
| "levelStr INFO = ''INFO''"
| "levelStr DEBUG = ''DEBUG''"
| "levelStr TRACE = ''TRACE''"

definition resetColor :: string where
  "resetColor = ESC # ''[0m''"

subsection \<open>Library functions on strings and streams\<close>

text \<open>
  \<^verbatim>\<open>std::setw(n)\<close> before a string: right-aligned, filled with spaces on the left,
  never truncated.
\<close>

definition setw :: "nat \<Rightarrow> string \<Rightarrow> string" where
  "setw n s = replicate (n - length s) CHR '' '' @ s"

text \<open>\<^verbatim>\<open>operator<<\<close> on an \<^verbatim>\<open>int\<close>: decimal digits, a minus sign when negative.\<close>

definition digit :: "nat \<Rightarrow> char" where
  "digit d = char_of (48 + d)"

function dec_nat :: "nat \<Rightarrow> string" where
  "dec_nat n = (if n < 10 then [digit n] else dec_nat (n div 10) @ [digit (n mod 10)])"
  by pat_completeness auto
termination
  by (relation "measure id") auto

declare dec_nat.simps [simp del]

definition show_int :: "int \<Rightarrow> string" where
  "show_int i = (if i < 0 then CHR ''-'' # dec_nat (nat (- i)) else dec_nat (nat i))"

text \<open>
  \<^verbatim>\<open>operator<<\<close> on a \<^verbatim>\<open>std::filesystem::path\<close> writes \<^verbatim>\<open>std::quoted(p.string())\<close>:
  the text between double quotes, with a backslash before every double quote and
  backslash. The operand \<^verbatim>\<open>(path.empty() ? "console" : path)\<close> of the three messages of
  Logger.cpp has type \<^verbatim>\<open>path\<close> in both branches, so both are written this way.
\<close>

definition quoted :: "string \<Rightarrow> string" where
  "quoted s =
     DQUOTE # concat (map (\<lambda>c. if c = DQUOTE \<or> c = BACKSLASH then [BACKSLASH, c] else [c]) s)
       @ [DQUOTE]"

text \<open>
  \<^verbatim>\<open>std::string::find(c, pos)\<close>: the index of the first \<open>c\<close> at or after \<open>pos\<close>;
  \<open>None\<close> is \<^verbatim>\<open>npos\<close>. \<^verbatim>\<open>substr(pos, n)\<close> is called with \<open>pos\<close> below the size only
  (the guard of the loop that calls it), where it cannot throw.
\<close>

definition str_find :: "string \<Rightarrow> char \<Rightarrow> nat \<Rightarrow> nat option" where
  "str_find s c pos =
     (if c \<in> set (drop pos s) then Some (pos + length (takeWhile (\<lambda>x. x \<noteq> c) (drop pos s)))
      else None)"

definition substr :: "string \<Rightarrow> nat \<Rightarrow> nat \<Rightarrow> string" where
  "substr s pos n = take n (drop pos s)"

subsection \<open>Paths and the file system\<close>

text \<open>
  A \<^verbatim>\<open>std::filesystem::path\<close> is its string; the empty path is the console.
  \<^verbatim>\<open>parent_path\<close> drops the file name and the separators before it, and keeps the root
  directory of a path directly under it.
\<close>

definition parent_path :: "string \<Rightarrow> string" where
  "parent_path p =
     (let q = rev (dropWhile (\<lambda>c. c \<noteq> SLASH) (rev p));
          r = rev (dropWhile (\<lambda>c. c = SLASH) (rev q))
      in if q \<noteq> [] \<and> r = [] then [SLASH] else r)"

definition has_parent_path :: "string \<Rightarrow> bool" where
  "has_parent_path p = (parent_path p \<noteq> [])"

text \<open>
  The file system: the directories that exist, the regular files with their contents, and
  the paths at which the operating system refuses to create or open anything.
\<close>

record filesystem =
  dirs :: "string set"
  files :: "string \<Rightarrow> string option"
  denied :: "string set"

definition fs_exists :: "filesystem \<Rightarrow> string \<Rightarrow> bool" where
  "fs_exists fs p = (p \<in> dirs fs \<or> files fs p \<noteq> None)"

fun anc :: "nat \<Rightarrow> string \<Rightarrow> string list" where
  "anc 0 p = []"
| "anc (Suc n) p =
     (if p = [] then [] else if parent_path p = p then [p] else p # anc n (parent_path p))"

text \<open>
  A directory and every directory above it, up to the root or to a relative name without
  separator. Each step up is shorter, so the length of the path bounds the steps.
\<close>

definition ancestors :: "string \<Rightarrow> string list" where
  "ancestors p = anc (length p) p"

datatype failure =
    Relock            \<comment> \<open>\<^verbatim>\<open>m_mutex.lock()\<close> by the thread that holds it: never returns\<close>
  | BackOnEmpty       \<comment> \<open>\<^verbatim>\<open>back()\<close> on an empty \<^verbatim>\<open>std::string\<close>: undefined\<close>
  | NullStream        \<comment> \<open>\<^verbatim>\<open>*m_stream\<close> with \<^verbatim>\<open>m_stream\<close> null: undefined\<close>
  | FilesystemError   \<comment> \<open>\<^verbatim>\<open>std::filesystem::filesystem_error\<close> thrown to the caller\<close>

text \<open>
  \<^verbatim>\<open>create_directories(d)\<close> creates \<open>d\<close> and the missing directories above it. It throws
  when one of them is a regular file or is refused.
\<close>

definition create_directories :: "filesystem \<Rightarrow> string \<Rightarrow> failure + filesystem" where
  "create_directories fs d =
     (if \<exists>a \<in> set (ancestors d). files fs a \<noteq> None \<or> (a \<notin> dirs fs \<and> a \<in> denied fs)
      then Inl FilesystemError
      else Inr (fs\<lparr>dirs := dirs fs \<union> set (ancestors d)\<rparr>))"

text \<open>
  \<^verbatim>\<open>std::ofstream(path, std::ios::app)\<close>: the open succeeds on an existing regular file,
  or creates an empty one in an existing directory; it fails on a directory, in a missing
  directory, and where refused. The stream object keeps whether it is good.
\<close>

record ofstream =
  os_good :: bool

definition can_open :: "filesystem \<Rightarrow> string \<Rightarrow> bool" where
  "can_open fs p =
     (p \<notin> dirs fs \<and> p \<notin> denied fs \<and>
      (files fs p \<noteq> None \<or> \<not> has_parent_path p \<or> parent_path p \<in> dirs fs))"

definition content :: "filesystem \<Rightarrow> string \<Rightarrow> string" where
  "content fs p = (case files fs p of None \<Rightarrow> [] | Some c \<Rightarrow> c)"

definition open_append :: "filesystem \<Rightarrow> string \<Rightarrow> ofstream \<times> filesystem" where
  "open_append fs p =
     (if can_open fs p then (\<lparr>os_good = True\<rparr>, fs\<lparr>files := (files fs)(p \<mapsto> content fs p)\<rparr>)
      else (\<lparr>os_good = False\<rparr>, fs))"

definition append_file :: "filesystem \<Rightarrow> string \<Rightarrow> string \<Rightarrow> filesystem" where
  "append_file fs p s = fs\<lparr>files := (files fs)(p \<mapsto> content fs p @ s)\<rparr>"

subsection \<open>Line, Worker and the state of the process\<close>

record Line =
  level :: Level
  "file" :: string
  line :: int
  func :: string
  msg :: string

record Worker =
  m_path :: string
  m_level :: Level
  m_stream :: "ofstream option"

text \<open>
  The members of the global \<^verbatim>\<open>Manager\<close> (\<open>m_mutex\<close> is whether the mutex is held) and the
  environment: \<^verbatim>\<open>std::cout\<close> with its state, the file system, and the clock, which gives
  the text of the \<open>n\<close>-th call of \<^verbatim>\<open>timeStr()\<close>.
\<close>

record state =
  m_workers :: "Worker list"
  m_mutex :: bool
  cout_good :: bool
  cout :: string
  fs :: filesystem
  clock :: "nat \<Rightarrow> string"
  ticks :: nat

definition timeStr :: "state \<Rightarrow> string \<times> state" where
  "timeStr st = (clock st (ticks st), st\<lparr>ticks := Suc (ticks st)\<rparr>)"

definition console :: "Worker \<Rightarrow> bool" where
  "console w = (m_path w = [])"

definition good :: "state \<Rightarrow> Worker \<Rightarrow> bool" where
  "good st w =
     ((m_path w = [] \<and> cout_good st) \<or>
      (case m_stream w of None \<Rightarrow> False | Some os \<Rightarrow> os_good os))"

definition setLevel :: "Worker \<Rightarrow> Level \<Rightarrow> Worker" where
  "setLevel w l = w\<lparr>m_level := l\<rparr>"

text \<open>
  What \<^verbatim>\<open>Worker::stream()\<close> refers to: \<^verbatim>\<open>std::cout\<close> for the empty path, else the
  \<^verbatim>\<open>ofstream\<close> that the constructor opened on \<open>m_path\<close>. A stream that is not good
  ignores what is written to it.
\<close>

datatype sink = Cout | FileStream string ofstream

definition stream :: "Worker \<Rightarrow> sink option" where
  "stream w =
     (if m_path w = [] then Some Cout
      else case m_stream w of None \<Rightarrow> None | Some os \<Rightarrow> Some (FileStream (m_path w) os))"

fun stream_write :: "state \<Rightarrow> sink \<Rightarrow> string \<Rightarrow> state" where
  "stream_write st Cout s = (if cout_good st then st\<lparr>cout := cout st @ s\<rparr> else st)"
| "stream_write st (FileStream p os) s =
     (if os_good os then st\<lparr>fs := append_file (fs st) p s\<rparr> else st)"

subsection \<open>Worker::log\<close>

text \<open>The loop \<^verbatim>\<open>while (msg.back() == '\n') { msg.pop_back(); }\<close>.\<close>

function strip_trailing :: "string \<Rightarrow> failure + string" where
  "strip_trailing m =
     (if m = [] then Inl BackOnEmpty
      else if last m = NL then strip_trailing (butlast m)
      else Inr m)"
  by pat_completeness auto
termination
  by (relation "measure length") auto

declare strip_trailing.simps [simp del]

text \<open>The loop \<^verbatim>\<open>while (start < msg.size())\<close> that writes the message line by line.\<close>

definition indent :: string where
  "indent = replicate (TIME_FMT_WIDTH + LEVEL_FMT_WIDTH + 3) CHR '' '' @ '' -> ''"

function write_lines :: "state \<Rightarrow> sink \<Rightarrow> string \<Rightarrow> nat \<Rightarrow> state" where
  "write_lines st sk m start =
     (if start < length m then
        let end = (case str_find m NL start of None \<Rightarrow> length m | Some e \<Rightarrow> e);
            st1 = (if start > 0 then stream_write st sk indent else st);
            st2 = stream_write st1 sk (substr m start (end - start + 1))
        in write_lines st2 sk m (end + 1)
      else st)"
  by pat_completeness auto
termination
  by (relation "measure (\<lambda>(st, sk, m, start). Suc (length m) - start)")
     (auto simp: str_find_def split: option.splits if_splits)

declare write_lines.simps [simp del]

definition Worker_log :: "state \<Rightarrow> Worker \<Rightarrow> Line \<Rightarrow> failure + state" where
  "Worker_log st w ln =
     (if \<not> good st w \<or> ordinal (level ln) > ordinal (m_level w) then Inr st
      else case stream w of
        None \<Rightarrow> Inl NullStream
      | Some sk \<Rightarrow>
          let st1 = (if console w then stream_write st sk (colorStr (level ln)) else st);
              (ts, st2) = timeStr st1;
              st3 = stream_write st2 sk
                      (ts @ '' | ['' @ setw LEVEL_FMT_WIDTH (levelStr (level ln)) @ ''] ''
                       @ file ln @ '':'' @ show_int (line ln) @ '' in '' @ func ln @ ''(): '')
          in (case strip_trailing (msg ln) of
                Inl e \<Rightarrow> Inl e
              | Inr m \<Rightarrow>
                  (let st4 = write_lines st3 sk m 0;
                       st5 = (if console w then stream_write st4 sk resetColor else st4)
                   in Inr (stream_write st5 sk [NL]))))"

subsection \<open>Manager\<close>

fun log_all :: "state \<Rightarrow> Worker list \<Rightarrow> Line \<Rightarrow> failure + state" where
  "log_all st [] ln = Inr st"
| "log_all st (w # ws) ln =
     (case Worker_log st w ln of Inl e \<Rightarrow> Inl e | Inr st' \<Rightarrow> log_all st' ws ln)"

text \<open>
  \<^verbatim>\<open>Manager::log\<close>: the \<^verbatim>\<open>std::lock_guard\<close> locks the mutex, which is not recursive, and
  unlocks it at the end of the scope.
\<close>

definition Manager_log :: "state \<Rightarrow> Line \<Rightarrow> failure + state" where
  "Manager_log st ln =
     (if m_mutex st then Inl Relock
      else case log_all (st\<lparr>m_mutex := True\<rparr>) (m_workers st) ln of
        Inl e \<Rightarrow> Inl e
      | Inr st' \<Rightarrow> Inr (st'\<lparr>m_mutex := False\<rparr>))"

text \<open>
  The macro \<^verbatim>\<open>LOG(level) << ...\<close> inside Logger.cpp: a \<^verbatim>\<open>Line\<close> with the file name of
  \<^verbatim>\<open>__FILE__\<close>, the line and the function of the call site, whose destructor calls
  \<^verbatim>\<open>manager.log\<close> at the end of the statement.
\<close>

definition LOG :: "state \<Rightarrow> Level \<Rightarrow> int \<Rightarrow> string \<Rightarrow> string \<Rightarrow> failure + state" where
  "LOG st lvl n fn m =
     Manager_log st \<lparr>level = lvl, file = ''Logger.cpp'', line = n, func = fn, msg = m\<rparr>"

definition separator :: "string \<Rightarrow> string" where
  "separator ts =
     [NL] @ replicate TIME_FMT_WIDTH CHR ''-'' @ [NL] @ ts @ '' | ''
       @ replicate (FULL_LOG_WIDTH - TIME_FMT_WIDTH - 1) CHR ''-'' @ [NL]"

text \<open>
  The constructor \<^verbatim>\<open>Worker::Worker(path, level)\<close>. Its first statement after the test
  for the console is \<open>make_parent\<close>: the directories above the path are created when
  the path does not exist and has a parent path.
\<close>

definition make_parent :: "filesystem \<Rightarrow> string \<Rightarrow> failure + filesystem" where
  "make_parent fsys path =
     (if \<not> fs_exists fsys path \<and> has_parent_path path
      then create_directories fsys (parent_path path) else Inr fsys)"

definition Worker_ctor :: "state \<Rightarrow> string \<Rightarrow> Level \<Rightarrow> failure + Worker \<times> state" where
  "Worker_ctor st path lvl =
     (let w0 = \<lparr>m_path = path, m_level = lvl, m_stream = None\<rparr> in
      if m_path w0 = [] then Inr (w0, st)
      else
        case make_parent (fs st) path of
          Inl e \<Rightarrow> Inl e
        | Inr fs1 \<Rightarrow>
            let (os, fs2) = open_append fs1 path;
                w = w0\<lparr>m_stream := Some os\<rparr>;
                st1 = st\<lparr>fs := fs2\<rparr>
            in if \<not> good st1 w then
                 (case LOG st1 WARNING 79 ''Worker''
                         (''Failed to open log at ''
                          @ quoted (if console w then ''console'' else path)) of
                    Inl e \<Rightarrow> Inl e
                  | Inr st2 \<Rightarrow> Inr (w, st2))
               else
                 let (ts, st2) = timeStr st1
                 in Inr (w, stream_write st2 (FileStream path os) (separator ts)))"

text \<open>
  The loop of \<^verbatim>\<open>Manager::addWorker\<close> over the workers: the first one with the path gets
  the level, and the function returns (\<open>Some\<close>); \<open>None\<close> when the loop ends.
\<close>

fun find_and_set :: "Worker list \<Rightarrow> string \<Rightarrow> Level \<Rightarrow> Worker list option" where
  "find_and_set [] p l = None"
| "find_and_set (w # ws) p l =
     (if m_path w = p then Some (setLevel w l # ws)
      else case find_and_set ws p l of None \<Rightarrow> None | Some ws' \<Rightarrow> Some (w # ws'))"

definition addWorker :: "state \<Rightarrow> string \<Rightarrow> Level \<Rightarrow> failure + state" where
  "addWorker st path lvl =
     (if m_mutex st then Inl Relock
      else
        let st1 = st\<lparr>m_mutex := True\<rparr> in
        case find_and_set (m_workers st1) path lvl of
          Some ws \<Rightarrow> Inr (st1\<lparr>m_workers := ws, m_mutex := False\<rparr>)
        | None \<Rightarrow>
            (case Worker_ctor st1 path lvl of
               Inl e \<Rightarrow> Inl e
             | Inr (new_worker, st2) \<Rightarrow>
                 let st3 = st2\<lparr>m_workers := m_workers st2 @ [new_worker]\<rparr>;
                     st4 = (if \<not> good st3 new_worker
                            then st3\<lparr>m_workers := butlast (m_workers st3)\<rparr> else st3);
                     st5 = st4\<lparr>m_mutex := False\<rparr>
                 in LOG st5 DEBUG 108 ''addWorker''
                      (''Added log worker at '' @ quoted (if path = [] then ''console'' else path)
                       @ '' (level: '' @ levelStr lvl @ '')'')))"

text \<open>The loop of \<^verbatim>\<open>Manager::removeWorker\<close>: erase the first worker with the path.\<close>

fun erase_first :: "Worker list \<Rightarrow> string \<Rightarrow> Worker list" where
  "erase_first [] p = []"
| "erase_first (w # ws) p = (if m_path w = p then ws else w # erase_first ws p)"

definition removeWorker :: "state \<Rightarrow> string \<Rightarrow> failure + state" where
  "removeWorker st path =
     (case LOG st DEBUG 113 ''removeWorker''
             (''Removing log worker at '' @ quoted (if path = [] then ''console'' else path)) of
        Inl e \<Rightarrow> Inl e
      | Inr st1 \<Rightarrow>
          if m_mutex st1 then Inl Relock
          else Inr (st1\<lparr>m_workers := erase_first (m_workers st1) path, m_mutex := False\<rparr>))"

text \<open>The four free functions of the header.\<close>

definition addConsole :: "state \<Rightarrow> Level \<Rightarrow> failure + state" where
  "addConsole st lvl = addWorker st [] lvl"

definition removeConsole :: "state \<Rightarrow> failure + state" where
  "removeConsole st = removeWorker st []"

definition addFile :: "state \<Rightarrow> string \<Rightarrow> Level \<Rightarrow> failure + state" where
  "addFile st path lvl = addWorker st path lvl"

definition removeFile :: "state \<Rightarrow> string \<Rightarrow> failure + state" where
  "removeFile st path = removeWorker st path"

subsection \<open>The rendering of an entry, in the words of the specification\<close>

text \<open>
  A message has text when some character of it is not a newline. \<open>rstrip\<close> removes the
  trailing newlines, \<open>split_lines\<close> cuts at every newline, and \<open>entry\<close> is the text of
  one log entry: colour (console only), location, the first line, every further line after
  a newline and the indentation with the arrow, reset (console only), newline.
\<close>

definition has_text :: "string \<Rightarrow> bool" where
  "has_text m = (\<exists>c \<in> set m. c \<noteq> NL)"

definition rstrip :: "string \<Rightarrow> string" where
  "rstrip m = rev (dropWhile (\<lambda>c. c = NL) (rev m))"

fun split_lines :: "string \<Rightarrow> string list" where
  "split_lines [] = [[]]"
| "split_lines (c # cs) =
     (if c = NL then [] # split_lines cs
      else (c # hd (split_lines cs)) # tl (split_lines cs))"

definition location :: "string \<Rightarrow> Line \<Rightarrow> string" where
  "location ts ln =
     ts @ '' | ['' @ setw LEVEL_FMT_WIDTH (levelStr (level ln)) @ ''] '' @ file ln @ '':''
       @ show_int (line ln) @ '' in '' @ func ln @ ''(): ''"

definition body :: "string \<Rightarrow> string" where
  "body m =
     (case split_lines (rstrip m) of
        [] \<Rightarrow> []
      | first # rest \<Rightarrow> first @ concat (map (\<lambda>l. NL # indent @ l) rest))"

definition entry :: "bool \<Rightarrow> string \<Rightarrow> Line \<Rightarrow> string" where
  "entry con ts ln =
     (if con then colorStr (level ln) else []) @ location ts ln @ body (msg ln)
       @ (if con then resetColor else []) @ [NL]"

text \<open>
  What the loop of \<^verbatim>\<open>Worker::log\<close> writes for the rest of a message: the indentation
  follows every newline but a final one.
\<close>

fun loop_text :: "string \<Rightarrow> string" where
  "loop_text [] = []"
| "loop_text (c # cs) = (if c = NL then NL # (if cs = [] then [] else indent @ loop_text cs) else c # loop_text cs)"

text \<open>The events that Logger.cpp itself logs.\<close>

definition failed_line :: "string \<Rightarrow> Line" where
  "failed_line path =
     \<lparr>level = WARNING, file = ''Logger.cpp'', line = 79, func = ''Worker'',
      msg = ''Failed to open log at '' @ quoted (if path = [] then ''console'' else path)\<rparr>"

definition added_line :: "string \<Rightarrow> Level \<Rightarrow> Line" where
  "added_line path lvl =
     \<lparr>level = DEBUG, file = ''Logger.cpp'', line = 108, func = ''addWorker'',
      msg = ''Added log worker at '' @ quoted (if path = [] then ''console'' else path)
            @ '' (level: '' @ levelStr lvl @ '')''\<rparr>"

definition removing_line :: "string \<Rightarrow> Line" where
  "removing_line path =
     \<lparr>level = DEBUG, file = ''Logger.cpp'', line = 113, func = ''removeWorker'',
      msg = ''Removing log worker at '' @ quoted (if path = [] then ''console'' else path)\<rparr>"

text \<open>The bytes a sink holds: the console output, or the contents of the file.\<close>

definition sink_content :: "state \<Rightarrow> string \<Rightarrow> string" where
  "sink_content st p = (if p = [] then cout st else content (fs st) p)"

subsection \<open>A concrete state\<close>

definition demo_fs :: filesystem where
  "demo_fs = \<lparr>dirs = {''/'', ''/var'', ''/var/log''},
              files = [''/var/log/app.log'' \<mapsto> ''old'' @ [NL]], denied = {}\<rparr>"

definition demo_console :: Worker where
  "demo_console = \<lparr>m_path = [], m_level = INFO, m_stream = None\<rparr>"

definition demo_file :: Worker where
  "demo_file = \<lparr>m_path = ''/var/log/app.log'', m_level = TRACE,
                 m_stream = Some \<lparr>os_good = True\<rparr>\<rparr>"

definition demo_state :: state where
  "demo_state = \<lparr>m_workers = [demo_console, demo_file], m_mutex = False, cout_good = True,
                 cout = [], fs = demo_fs, clock = (\<lambda>n. ''12:00:00.000''), ticks = 0\<rparr>"

definition demo_line :: Line where
  "demo_line = \<lparr>level = WARNING, file = ''main.cpp'', line = 42, func = ''main'',
                msg = ''line1'' @ [NL] @ ''line2'' @ [NL]\<rparr>"



section \<open>Properties\<close>

subsection \<open>The two loops of Worker::log\<close>

lemma strip_trailing_snoc:
  "strip_trailing (m @ [c]) = (if c = NL then strip_trailing m else Inr (m @ [c]))"
  by (subst strip_trailing.simps) simp

lemma strip_trailing_eq:
  "strip_trailing m = (if has_text m then Inr (rstrip m) else Inl BackOnEmpty)"
proof (induction m rule: rev_induct)
  case Nil
  show ?case by (subst strip_trailing.simps) (simp add: has_text_def)
next
  case (snoc c m)
  then show ?case by (auto simp: strip_trailing_snoc has_text_def rstrip_def)
qed

lemma stream_write_append:
  "stream_write (stream_write st sk a) sk b = stream_write st sk (a @ b)"
  by (cases sk) (auto simp: append_file_def content_def)

lemma cont_no_NL: "NL \<notin> set r \<Longrightarrow> loop_text r = r"
  by (induction r) auto

lemma cont_split:
  "NL \<in> set r \<Longrightarrow>
   loop_text r = takeWhile (\<lambda>x. x \<noteq> NL) r @ NL #
     (let r' = drop (Suc (length (takeWhile (\<lambda>x. x \<noteq> NL) r))) r
      in if r' = [] then [] else indent @ loop_text r')"
  by (induction r) (auto simp: Let_def)

lemma take_Suc_takeWhile:
  "c \<in> set r \<Longrightarrow>
   take (Suc (length (takeWhile (\<lambda>x. x \<noteq> c) r))) r = takeWhile (\<lambda>x. x \<noteq> c) r @ [c]"
  by (induction r) auto

lemma length_takeWhile_mem:
  "c \<in> set r \<Longrightarrow> length (takeWhile (\<lambda>x. x \<noteq> c) r) < length r"
  by (induction r) auto

lemma write_lines_eq:
  "write_lines (stream_write st sk pre) sk m start =
   stream_write st sk
     (pre @ (if drop start m = [] then [] else (if 0 < start then indent else []) @ loop_text (drop start m)))"
proof (induction "length m - start" arbitrary: start pre rule: less_induct)
  case less
  show ?case
  proof (cases "start < length m")
    case False
    then show ?thesis by (subst write_lines.simps) simp
  next
    case True
    let ?r = "drop start m"
    let ?k = "length (takeWhile (\<lambda>x. x \<noteq> NL) ?r)"
    let ?ind = "if 0 < start then indent else []"
    show ?thesis
    proof (cases "NL \<in> set ?r")
      case nl: True
      have k: "?k < length ?r"
        using nl by (rule length_takeWhile_mem)
      then have lt: "length m - (start + ?k + 1) < length m - start" using True by simp
      have find: "str_find m NL start = Some (start + ?k)"
        using nl by (simp add: str_find_def)
      have chunk: "substr m start (start + ?k - start + 1) = takeWhile (\<lambda>x. x \<noteq> NL) ?r @ [NL]"
        using take_Suc_takeWhile [OF nl] by (simp add: substr_def)
      have dr: "drop (start + ?k + 1) m = drop (Suc ?k) ?r"
        by (simp add: add.commute)
      have "write_lines (stream_write st sk pre) sk m start =
            write_lines (stream_write st sk (pre @ ?ind @ takeWhile (\<lambda>x. x \<noteq> NL) ?r @ [NL])) sk m (start + ?k + 1)"
        using True find chunk
        by (subst write_lines.simps) (simp add: stream_write_append Let_def)
      also have "\<dots> = stream_write st sk ((pre @ ?ind @ takeWhile (\<lambda>x. x \<noteq> NL) ?r @ [NL]) @
           (if drop (start + ?k + 1) m = [] then [] else indent @ loop_text (drop (start + ?k + 1) m)))"
        using less [OF lt] by simp
      also have "\<dots> = stream_write st sk (pre @ ?ind @ loop_text ?r)"
        using cont_split [OF nl] unfolding dr by (simp add: Let_def)
      finally show ?thesis using True by simp
    next
      case nonl: False
      have find: "str_find m NL start = None"
        using nonl by (simp add: str_find_def)
      have chunk: "substr m start (length m - start + 1) = ?r"
        by (simp add: substr_def)
      have "write_lines (stream_write st sk pre) sk m start =
            write_lines (stream_write st sk (pre @ ?ind @ ?r)) sk m (length m + 1)"
        using True find chunk
        by (subst write_lines.simps) (simp add: stream_write_append Let_def)
      also have "\<dots> = stream_write st sk (pre @ ?ind @ ?r)"
        by (subst write_lines.simps) simp
      finally show ?thesis using True nonl by (simp add: cont_no_NL)
    qed
  qed
qed

lemma split_lines_nonempty: "split_lines m \<noteq> []"
  by (cases m) auto



lemma cont_split_lines:
  "r \<noteq> [] \<Longrightarrow> last r \<noteq> NL \<Longrightarrow>
   loop_text r = hd (split_lines r) @ concat (map (\<lambda>l. NL # indent @ l) (tl (split_lines r)))"
proof (induction r)
  case Nil
  then show ?case by simp
next
  case (Cons c cs)
  show ?case
  proof (cases "cs = []")
    case True
    with Cons.prems show ?thesis by simp
  next
    case False
    obtain h t where ht: "split_lines cs = h # t"
      using split_lines_nonempty [of cs] by (cases "split_lines cs") auto
    from False Cons have "loop_text cs = h @ concat (map (\<lambda>l. NL # indent @ l) t)"
      by (simp add: ht)
    with False ht show ?thesis by simp
  qed
qed

lemma rstrip_nonempty: "has_text m \<Longrightarrow> rstrip m \<noteq> []"
  by (auto simp: rstrip_def has_text_def dropWhile_eq_Nil_conv)

lemma rstrip_last: "has_text m \<Longrightarrow> last (rstrip m) \<noteq> NL"
proof -
  assume "has_text m"
  then have ne: "dropWhile (\<lambda>c. c = NL) (rev m) \<noteq> []"
    by (auto simp: has_text_def dropWhile_eq_Nil_conv)
  then have "hd (dropWhile (\<lambda>c. c = NL) (rev m)) \<noteq> NL"
    using hd_dropWhile [of "\<lambda>c. c = NL" "rev m"] by blast
  with ne show ?thesis by (simp add: rstrip_def last_rev)
qed

lemma cont_rstrip: "has_text m \<Longrightarrow> loop_text (rstrip m) = body m"
  using cont_split_lines [OF rstrip_nonempty rstrip_last, of m] split_lines_nonempty [of "rstrip m"]
  by (cases "split_lines (rstrip m)") (auto simp: body_def)

lemma stream_write_ticks_update:
  "(stream_write st sk s)\<lparr>ticks := n\<rparr> = stream_write (st\<lparr>ticks := n\<rparr>) sk s"
  by (cases sk) auto

lemma good_stream: "good st w \<Longrightarrow> \<exists>sk. stream w = Some sk"
  by (auto simp: good_def stream_def split: option.splits)

lemma Worker_log_filtered:
  "\<not> good st w \<or> ordinal (m_level w) < ordinal (level ln) \<Longrightarrow> Worker_log st w ln = Inr st"
  by (auto simp: Worker_log_def)

lemma Worker_log_no_text:
  "good st w \<Longrightarrow> ordinal (level ln) \<le> ordinal (m_level w) \<Longrightarrow> \<not> has_text (msg ln) \<Longrightarrow>
   Worker_log st w ln = Inl BackOnEmpty"
  using good_stream [of st w]
  by (auto simp: Worker_log_def strip_trailing_eq timeStr_def Let_def split: prod.splits)

lemma Worker_log_forward:
  assumes "good st w" "ordinal (level ln) \<le> ordinal (m_level w)" "has_text (msg ln)"
    "stream w = Some sk"
  shows "Worker_log st w ln =
         Inr (stream_write (st\<lparr>ticks := Suc (ticks st)\<rparr>) sk
                (entry (console w) (clock st (ticks st)) ln))"
proof -
  have wl: "\<And>s pre. write_lines (stream_write s sk pre) sk (rstrip (msg ln)) 0 =
                 stream_write s sk (pre @ body (msg ln))"
    using rstrip_nonempty [OF assms(3)] cont_rstrip [OF assms(3)]
    by (simp add: write_lines_eq)
  show ?thesis
  proof (cases "console w")
    case True
    have clk: "clock (stream_write st sk (colorStr (level ln))) = clock st"
      "ticks (stream_write st sk (colorStr (level ln))) = ticks st"
      by (cases sk; simp)+
    show ?thesis using assms True
      by (simp add: Worker_log_def strip_trailing_eq timeStr_def Let_def clk
          stream_write_ticks_update stream_write_append wl entry_def location_def)
  next
    case False
    have "write_lines (stream_write (st\<lparr>ticks := Suc (ticks st)\<rparr>) sk (location (clock st (ticks st)) ln)) sk (rstrip (msg ln)) 0
          = stream_write (st\<lparr>ticks := Suc (ticks st)\<rparr>) sk (location (clock st (ticks st)) ln @ body (msg ln))"
      by (rule wl)
    then show ?thesis using assms False
      by (simp add: Worker_log_def strip_trailing_eq timeStr_def Let_def
          stream_write_append entry_def location_def)
  qed
qed

subsection \<open>Dispatch\<close>

lemma stream_write_fields [simp]:
  "m_workers (stream_write st sk s) = m_workers st"
  "m_mutex (stream_write st sk s) = m_mutex st"
  "cout_good (stream_write st sk s) = cout_good st"
  "clock (stream_write st sk s) = clock st"
  "ticks (stream_write st sk s) = ticks st"
  by (cases sk, simp_all)+

lemma Worker_log_cases:
  assumes "Worker_log st w ln = Inr st'"
  obtains (filtered) "\<not> good st w \<or> ordinal (m_level w) < ordinal (level ln)" "st' = st"
  | (forwarded) sk where "good st w" "ordinal (level ln) \<le> ordinal (m_level w)"
      "has_text (msg ln)" "stream w = Some sk"
      "st' = stream_write (st\<lparr>ticks := Suc (ticks st)\<rparr>) sk (entry (console w) (clock st (ticks st)) ln)"
proof (cases "\<not> good st w \<or> ordinal (m_level w) < ordinal (level ln)")
  case True
  then have "Worker_log st w ln = Inr st" by (rule Worker_log_filtered)
  with assms have "st' = st" by simp
  with True show ?thesis by (rule filtered)
next
  case False
  then have g: "good st w" and o: "ordinal (level ln) \<le> ordinal (m_level w)" by auto
  from g obtain sk where sk: "stream w = Some sk" using good_stream by blast
  have t: "has_text (msg ln)"
    using assms Worker_log_no_text [OF g o] by (cases "has_text (msg ln)") auto
  from assms Worker_log_forward [OF g o t sk]
  have "st' = stream_write (st\<lparr>ticks := Suc (ticks st)\<rparr>) sk (entry (console w) (clock st (ticks st)) ln)"
    by simp
  with g o t sk show ?thesis by (rule forwarded)
qed

lemma Worker_log_total:
  "has_text (msg ln) \<Longrightarrow> \<exists>st'. Worker_log st w ln = Inr st'"
  using Worker_log_filtered [of st w ln] Worker_log_forward [of st w ln] good_stream [of st w]
  by (cases "\<not> good st w \<or> ordinal (m_level w) < ordinal (level ln)") (auto simp: not_less)

lemma Worker_log_fields:
  assumes "Worker_log st w ln = Inr st'"
  shows "m_workers st' = m_workers st" "m_mutex st' = m_mutex st" "cout_good st' = cout_good st"
    "clock st' = clock st" "ticks st \<le> ticks st'"
  using assms by (cases rule: Worker_log_cases; simp)+

lemma good_cong:
  "cout_good st' = cout_good st \<Longrightarrow> good st' w = good st w"
  by (simp add: good_def)

lemma log_all_fields:
  "log_all st ws ln = Inr st' \<Longrightarrow>
   m_workers st' = m_workers st \<and> m_mutex st' = m_mutex st \<and> cout_good st' = cout_good st \<and>
   clock st' = clock st \<and> ticks st \<le> ticks st'"
proof (induction ws arbitrary: st)
  case Nil
  then show ?case by simp
next
  case (Cons w ws)
  then obtain s where s: "Worker_log st w ln = Inr s" "log_all s ws ln = Inr st'"
    by (auto split: sum.splits)
  from Worker_log_fields [OF s(1)] Cons.IH [OF s(2)] show ?case by simp
qed

lemma log_all_total:
  "has_text (msg ln) \<Longrightarrow> \<exists>st'. log_all st ws ln = Inr st'"
proof (induction ws arbitrary: st)
  case Nil
  then show ?case by simp
next
  case (Cons w ws)
  from Worker_log_total [OF Cons.prems] obtain s where "Worker_log st w ln = Inr s" by blast
  with Cons.IH [OF Cons.prems, of s] show ?case by simp
qed

lemma log_all_append:
  "log_all st (xs @ ys) ln =
   (case log_all st xs ln of Inl e \<Rightarrow> Inl e | Inr s \<Rightarrow> log_all s ys ln)"
  by (induction xs arbitrary: st) (auto split: sum.splits)

lemma sink_content_write_other:
  "stream w = Some sk \<Longrightarrow> m_path w \<noteq> p \<Longrightarrow>
   sink_content (stream_write st sk s) p = sink_content st p"
  by (cases sk)
    (auto simp: stream_def sink_content_def append_file_def content_def
      split: if_splits option.splits)

lemma sink_content_write_own:
  "stream w = Some sk \<Longrightarrow> good st w \<Longrightarrow> m_path w = [] \<longrightarrow> cout_good st \<Longrightarrow>
   sink_content (stream_write st sk s) (m_path w) = sink_content st (m_path w) @ s"
  by (cases sk)
    (auto simp: stream_def sink_content_def append_file_def content_def good_def
      split: if_splits option.splits)

lemma sink_content_ticks [simp]:
  "sink_content (st\<lparr>ticks := n\<rparr>) p = sink_content st p"
  "sink_content (st\<lparr>m_mutex := b\<rparr>) p = sink_content st p"
  "sink_content (st\<lparr>m_workers := ws\<rparr>) p = sink_content st p"
  by (simp_all add: sink_content_def)

lemma Worker_log_other:
  assumes "Worker_log st w ln = Inr st'" "m_path w \<noteq> p"
  shows "sink_content st' p = sink_content st p"
  using assms(1)
proof (cases rule: Worker_log_cases)
  case filtered
  then show ?thesis by simp
next
  case (forwarded sk)
  then show ?thesis using sink_content_write_other [OF forwarded(4) assms(2)] by simp
qed

lemma log_all_other:
  "log_all st ws ln = Inr st' \<Longrightarrow> p \<notin> m_path ` set ws \<Longrightarrow>
   sink_content st' p = sink_content st p"
proof (induction ws arbitrary: st)
  case Nil
  then show ?case by simp
next
  case (Cons w ws)
  then obtain s where s: "Worker_log st w ln = Inr s" "log_all s ws ln = Inr st'"
    by (auto split: sum.splits)
  from Cons.prems have "m_path w \<noteq> p" "p \<notin> m_path ` set ws" by auto
  with Worker_log_other [OF s(1)] Cons.IH [OF s(2)] show ?case by simp
qed

lemma Worker_log_own:
  assumes "good st w" "ordinal (level ln) \<le> ordinal (m_level w)" "has_text (msg ln)"
    "m_path w = [] \<longrightarrow> cout_good st"
  shows "\<exists>st'. Worker_log st w ln = Inr st' \<and>
           sink_content st' (m_path w) =
           sink_content st (m_path w) @ entry (console w) (clock st (ticks st)) ln"
proof -
  from assms(1) obtain sk where sk: "stream w = Some sk" using good_stream by blast
  have g: "good (st\<lparr>ticks := Suc (ticks st)\<rparr>) w" using assms(1) by (simp add: good_def)
  show ?thesis
    using Worker_log_forward [OF assms(1-3) sk] sink_content_write_own [OF sk g] assms(4)
    by simp
qed

lemma log_all_reaches:
  assumes "m_path w \<notin> m_path ` set xs" "m_path w \<notin> m_path ` set ys"
    "good st w" "ordinal (level ln) \<le> ordinal (m_level w)" "has_text (msg ln)"
    "m_path w = [] \<longrightarrow> cout_good st"
  shows "\<exists>st' n. log_all st (xs @ w # ys) ln = Inr st' \<and> ticks st \<le> n \<and>
           sink_content st' (m_path w) =
           sink_content st (m_path w) @ entry (console w) (clock st n) ln"
proof -
  from log_all_total [OF assms(5)] obtain s1 where s1: "log_all st xs ln = Inr s1" by blast
  note f1 = log_all_fields [OF s1]
  have c1: "sink_content s1 (m_path w) = sink_content st (m_path w)"
    using log_all_other [OF s1 assms(1)] .
  have g1: "good s1 w" using assms(3) f1 by (simp add: good_def)
  have cg: "m_path w = [] \<longrightarrow> cout_good s1" using assms(6) f1 by simp
  from Worker_log_own [OF g1 assms(4,5) cg] obtain s2 where
    s2: "Worker_log s1 w ln = Inr s2"
    "sink_content s2 (m_path w) = sink_content s1 (m_path w) @ entry (console w) (clock s1 (ticks s1)) ln"
    by blast
  from log_all_total [OF assms(5)] obtain s3 where s3: "log_all s2 ys ln = Inr s3" by blast
  have c3: "sink_content s3 (m_path w) = sink_content s2 (m_path w)"
    using log_all_other [OF s3 assms(2)] .
  have "log_all st (xs @ w # ys) ln = Inr s3"
    using s1 s2(1) s3 by (simp add: log_all_append)
  moreover have "sink_content s3 (m_path w) =
      sink_content st (m_path w) @ entry (console w) (clock st (ticks s1)) ln"
    using c3 s2(2) c1 f1 by simp
  ultimately show ?thesis using f1 by blast
qed

lemma Manager_log_fields:
  "Manager_log st ln = Inr st' \<Longrightarrow>
   m_workers st' = m_workers st \<and> \<not> m_mutex st \<and> \<not> m_mutex st' \<and> cout_good st' = cout_good st \<and>
   clock st' = clock st \<and> ticks st \<le> ticks st'"
  by (auto simp: Manager_log_def split: if_splits sum.splits dest!: log_all_fields)


lemma Manager_log_locked: "m_mutex st \<Longrightarrow> Manager_log st ln = Inl Relock"
  by (simp add: Manager_log_def)

subsection \<open>Claims\<close>




text \<open>
  C9. The stripping loop of \<^verbatim>\<open>Worker::log\<close> has no emptiness check. On every forwarded
  event whose message is empty or consists of newline characters only, the loop calls
  \<^verbatim>\<open>back()\<close> on an empty string: at its first test for the empty message, after the
  last \<^verbatim>\<open>pop_back()\<close> otherwise. So the loop is not safe for these events.
\<close>

theorem Worker_log_back_on_empty:
  assumes "good st w" "ordinal (level ln) \<le> ordinal (m_level w)"
    "\<forall>c \<in> set (msg ln). c = NL"
  shows "Worker_log st w ln = Inl BackOnEmpty"
proof -
  from assms(3) have "\<not> has_text (msg ln)" by (simp add: has_text_def)
  with assms(1,2) show ?thesis by (rule Worker_log_no_text)
qed

theorem Worker_log_back_on_empty_witness:
  "good demo_state demo_console \<and>
   ordinal (level (demo_line\<lparr>msg := []\<rparr>)) \<le> ordinal (m_level demo_console) \<and>
   Worker_log demo_state demo_console (demo_line\<lparr>msg := []\<rparr>) = Inl BackOnEmpty \<and>
   Worker_log demo_state demo_console (demo_line\<lparr>msg := [NL, NL]\<rparr>) = Inl BackOnEmpty"
proof -
  have g: "good demo_state demo_console"
    and o: "\<And>m. ordinal (level (demo_line\<lparr>msg := m\<rparr>)) \<le> ordinal (m_level demo_console)"
    by (simp_all add: good_def demo_state_def demo_console_def demo_line_def)
  have e1: "Worker_log demo_state demo_console (demo_line\<lparr>msg := []\<rparr>) = Inl BackOnEmpty"
    by (rule Worker_log_back_on_empty [OF g o]) simp
  have e2: "Worker_log demo_state demo_console (demo_line\<lparr>msg := [NL, NL]\<rparr>) = Inl BackOnEmpty"
    by (rule Worker_log_back_on_empty [OF g o]) simp
  from g o [of "[]"] e1 e2 show ?thesis by blast
qed

lemma has_text_Cons: "c \<noteq> NL \<Longrightarrow> has_text (c # m)"
  by (simp add: has_text_def)


lemma erase_first_removes:
  "distinct (map m_path ws) \<Longrightarrow> p \<notin> m_path ` set (erase_first ws p)"
  by (induction ws) auto

lemma erase_first_subset: "set (erase_first ws p) \<subseteq> set ws"
  by (induction ws) auto

lemma erase_first_distinct:
  "distinct (map m_path ws) \<Longrightarrow> distinct (map m_path (erase_first ws p))"
proof (induction ws)
  case Nil
  then show ?case by simp
next
  case (Cons a ws)
  have "m_path a \<notin> m_path ` set (erase_first ws p)"
    using Cons.prems erase_first_subset [of ws p] by auto
  with Cons show ?case by auto
qed

lemma removeWorker_eq:
  "removeWorker st path =
   (case Manager_log st (removing_line path) of
      Inl e \<Rightarrow> Inl e
    | Inr st1 \<Rightarrow> Inr (st1\<lparr>m_workers := erase_first (m_workers st1) path, m_mutex := False\<rparr>))"
  by (auto simp: removeWorker_def LOG_def removing_line_def split: sum.splits
      dest: Manager_log_fields)

lemma removing_line_text: "has_text (msg (removing_line path))"
  by (simp add: removing_line_def has_text_Cons)



lemma Manager_log_reaches:
  assumes "\<not> m_mutex st" "distinct (map m_path (m_workers st))" "w \<in> set (m_workers st)"
    "good st w" "ordinal (level ln) \<le> ordinal (m_level w)" "has_text (msg ln)"
    "m_path w = [] \<longrightarrow> cout_good st"
  shows "\<exists>st' n. Manager_log st ln = Inr st' \<and> ticks st \<le> n \<and>
           sink_content st' (m_path w) =
           sink_content st (m_path w) @ entry (console w) (clock st n) ln"
proof -
  from assms(3) obtain xs ys where sp: "m_workers st = xs @ w # ys"
    by (auto dest: split_list)
  with assms(2) have d: "m_path w \<notin> m_path ` set xs" "m_path w \<notin> m_path ` set ys"
    by auto
  let ?s = "st\<lparr>m_mutex := True\<rparr>"
  have g: "good ?s w" using assms(4) by (simp add: good_def)
  have c: "m_path w = [] \<longrightarrow> cout_good ?s" using assms(7) by simp
  from log_all_reaches [OF d g assms(5,6) c]
  obtain st1 n where r: "log_all ?s (xs @ w # ys) ln = Inr st1" "ticks ?s \<le> n"
    "sink_content st1 (m_path w) = sink_content ?s (m_path w) @ entry (console w) (clock ?s n) ln"
    by blast
  have "Manager_log st ln = Inr (st1\<lparr>m_mutex := False\<rparr>)"
    using assms(1) r(1) sp by (simp add: Manager_log_def)
  moreover have "sink_content (st1\<lparr>m_mutex := False\<rparr>) (m_path w) =
      sink_content st (m_path w) @ entry (console w) (clock st n) ln"
    using r(3) by simp
  ultimately show ?thesis using r(2) by auto
qed

text \<open>
  C5. \<^verbatim>\<open>removeWorker\<close> logs, then erases. When the Worker with the path is registered,
  healthy (for the console, \<^verbatim>\<open>std::cout\<close> is good) and has a threshold that admits DEBUG,
  the call returns, the sink of that Worker has received the entry of the announcement
  ``Removing log worker at ...'' with a timestamp of the clock, and the Worker is no
  longer in the vector.
\<close>

theorem removeWorker_log_then_erase:
  assumes "\<not> m_mutex st" "distinct (map m_path (m_workers st))" "w \<in> set (m_workers st)"
    "good st w" "ordinal DEBUG \<le> ordinal (m_level w)" "m_path w = [] \<longrightarrow> cout_good st"
  shows "\<exists>st' n. removeWorker st (m_path w) = Inr st' \<and>
           sink_content st' (m_path w) =
             sink_content st (m_path w)
             @ entry (console w) (clock st n) (removing_line (m_path w)) \<and>
           m_path w \<notin> m_path ` set (m_workers st') \<and>
           m_workers st' = erase_first (m_workers st) (m_path w)"
proof -
  have o: "ordinal (level (removing_line (m_path w))) \<le> ordinal (m_level w)"
    using assms(5) by (simp add: removing_line_def)
  from Manager_log_reaches [OF assms(1-4) o removing_line_text assms(6)]
  obtain st1 n where r: "Manager_log st (removing_line (m_path w)) = Inr st1"
    "sink_content st1 (m_path w) =
       sink_content st (m_path w) @ entry (console w) (clock st n) (removing_line (m_path w))"
    by blast
  from Manager_log_fields [OF r(1)] have w: "m_workers st1 = m_workers st" by simp
  let ?st' = "st1\<lparr>m_workers := erase_first (m_workers st1) (m_path w), m_mutex := False\<rparr>"
  have "removeWorker st (m_path w) = Inr ?st'" using r(1) by (simp add: removeWorker_eq)
  moreover have "sink_content ?st' (m_path w) =
      sink_content st (m_path w) @ entry (console w) (clock st n) (removing_line (m_path w))"
    using r(2) by simp
  moreover have "m_path w \<notin> m_path ` set (m_workers ?st')"
    using erase_first_removes [OF assms(2)] w by simp
  moreover have "m_workers ?st' = erase_first (m_workers st) (m_path w)" using w by simp
  ultimately show ?thesis by blast
qed

theorem removeWorker_log_then_erase_witness:
  "\<not> m_mutex demo_state \<and> distinct (map m_path (m_workers demo_state)) \<and>
   demo_file \<in> set (m_workers demo_state) \<and> good demo_state demo_file \<and>
   ordinal DEBUG \<le> ordinal (m_level demo_file) \<and>
   (\<exists>st'. removeWorker demo_state ''/var/log/app.log'' = Inr st' \<and>
      sink_content st' ''/var/log/app.log'' =
        ''old'' @ [NL] @ entry False ''12:00:00.000'' (removing_line ''/var/log/app.log'') \<and>
      m_workers st' = [demo_console])"
proof -
  have a: "\<not> m_mutex demo_state" by (simp add: demo_state_def)
  have b: "distinct (map m_path (m_workers demo_state))"
    by (simp add: demo_state_def demo_console_def demo_file_def)
  have c: "demo_file \<in> set (m_workers demo_state)" by (simp add: demo_state_def)
  have d: "good demo_state demo_file" by (simp add: good_def demo_file_def)
  have e: "ordinal DEBUG \<le> ordinal (m_level demo_file)" by (simp add: demo_file_def)
  have f: "m_path demo_file = [] \<longrightarrow> cout_good demo_state" by (simp add: demo_file_def)
  have p: "m_path demo_file = ''/var/log/app.log''" "console demo_file = False"
    by (simp_all add: demo_file_def console_def)
  have k: "\<And>n. clock demo_state n = ''12:00:00.000''" by (simp add: demo_state_def)
  have s: "sink_content demo_state ''/var/log/app.log'' = ''old'' @ [NL]"
    by (simp add: sink_content_def demo_state_def demo_fs_def content_def)
  have w: "erase_first (m_workers demo_state) ''/var/log/app.log'' = [demo_console]"
    by (simp add: demo_state_def demo_console_def demo_file_def)
  from removeWorker_log_then_erase [OF a b c d e f]
  obtain st' where "removeWorker demo_state ''/var/log/app.log'' = Inr st'"
    "sink_content st' ''/var/log/app.log'' =
       ''old'' @ [NL] @ entry False ''12:00:00.000'' (removing_line ''/var/log/app.log'')"
    "m_workers st' = [demo_console]"
    unfolding p k s w append_assoc by blast
  with a b c d e show ?thesis by blast
qed











end
